theory Spec2Isabelle
  imports Main
begin

section \<open>The Modelfile parser (modelfile-parser.cpp)\<close>

subsection \<open>The document\<close>

text \<open>
  \<^verbatim>\<open>struct ModelFile\<close>: five strings and two vectors of string pairs. A default-constructed
  \<^verbatim>\<open>ModelFile\<close> has every string and every vector empty.
\<close>

record ModelFile =
  "from" :: string
  parameters :: "(string \<times> string) list"
  template_str :: string
  system :: string
  adapter :: string
  license :: string
  messages :: "(string \<times> string) list"

definition ModelFile_default :: ModelFile where
  "ModelFile_default =
     \<lparr>from = [], parameters = [], template_str = [], system = [],
      adapter = [], license = [], messages = []\<rparr>"

subsection \<open>The string operations the parser uses\<close>

definition newline :: char where
  "newline = CHR 0x0A"

definition nul :: char where
  "nul = CHR 0x00"

text \<open>The literal \<^verbatim>\<open>"\"\"\""\<close>: three double-quote characters.\<close>

definition triple_quote :: string where
  "triple_quote = [CHR 0x22, CHR 0x22, CHR 0x22]"

text \<open>The character set \<^verbatim>\<open>" \n\r\t"\<close> handed to \<^verbatim>\<open>find_last_not_of\<close>.\<close>

definition whitespace :: string where
  "whitespace = [CHR 0x20, CHR 0x0A, CHR 0x0D, CHR 0x09]"

text \<open>\<^verbatim>\<open>str.substr(0, prefix.size()) == prefix\<close>.\<close>

definition starts_with :: "string \<Rightarrow> string \<Rightarrow> bool" where
  "starts_with str prefix = (take (length prefix) str = prefix)"

text \<open>
  \<^verbatim>\<open>s.substr(pos)\<close> and \<^verbatim>\<open>s.substr(pos, n)\<close>. The library raises \<^verbatim>\<open>out_of_range\<close> when
  \<^verbatim>\<open>pos > s.size()\<close>; every call of the parser is behind a \<^verbatim>\<open>starts_with\<close> test or a
  successful \<^verbatim>\<open>find\<close>, so the position is in range there (lemmas \<open>starts_with_length\<close>
  and \<open>find_char_in_range\<close> below).
\<close>

definition substr :: "string \<Rightarrow> nat \<Rightarrow> string" where
  "substr s pos = drop pos s"

definition substr_n :: "string \<Rightarrow> nat \<Rightarrow> nat \<Rightarrow> string" where
  "substr_n s pos n = take n (drop pos s)"

text \<open>\<^verbatim>\<open>s.find(pat)\<close>: the offset of the first occurrence, \<open>None\<close> for \<^verbatim>\<open>npos\<close>.\<close>

fun find_str :: "string \<Rightarrow> string \<Rightarrow> nat option" where
  "find_str [] pat = (if pat = [] then Some 0 else None)"
| "find_str (c # cs) pat =
     (if starts_with (c # cs) pat then Some 0 else map_option Suc (find_str cs pat))"

text \<open>\<^verbatim>\<open>s.find(c, pos)\<close>: the offset of the first \<open>c\<close> at or after \<open>pos\<close>.\<close>

fun index_of :: "char \<Rightarrow> string \<Rightarrow> nat option" where
  "index_of c [] = None"
| "index_of c (x # xs) = (if x = c then Some 0 else map_option Suc (index_of c xs))"

definition find_char :: "string \<Rightarrow> char \<Rightarrow> nat \<Rightarrow> nat option" where
  "find_char s c pos = map_option (\<lambda>i. pos + i) (index_of c (drop pos s))"

text \<open>
  \<^verbatim>\<open>s.find_last_not_of(chars)\<close>: the offset of the last character of \<open>s\<close> that is not in
  \<open>chars\<close>, \<open>None\<close> for \<^verbatim>\<open>npos\<close>.
\<close>

definition find_last_not_of :: "string \<Rightarrow> string \<Rightarrow> nat option" where
  "find_last_not_of s chars =
     (case dropWhile (\<lambda>c. c \<in> set chars) (rev s) of
        [] \<Rightarrow> None
      | _ # r \<Rightarrow> Some (length r))"

text \<open>
  \<^verbatim>\<open>line.erase(line.find_last_not_of(" \n\r\t") + 1)\<close>. \<^verbatim>\<open>npos\<close> is the largest \<^verbatim>\<open>size_t\<close>,
  so \<^verbatim>\<open>npos + 1\<close> wraps around to 0 and the whole line is erased.
\<close>

definition erase_trailing :: "string \<Rightarrow> string" where
  "erase_trailing line =
     take (case find_last_not_of line whitespace of None \<Rightarrow> 0 | Some i \<Rightarrow> i + 1) line"

subsection \<open>The line source\<close>

text \<open>
  An open \<^verbatim>\<open>FILE*\<close> is modelled by the bytes not yet read. \<^verbatim>\<open>fgets(buffer, size, file)\<close>
  fails at end of file; otherwise it reads up to and including the next newline, but at
  most \<open>count - 1\<close> bytes, and returns them together with the new file position.
\<close>

definition fgets :: "nat \<Rightarrow> string \<Rightarrow> (string \<times> string) option" where
  "fgets count file =
     (if file = [] then None
      else let n = min (count - 1)
                       (case index_of newline file of None \<Rightarrow> length file | Some i \<Rightarrow> i + 1)
           in Some (take n file, drop n file))"

text \<open>
  \<^verbatim>\<open>std::string line(buffer)\<close> copies the buffer as a C string: up to the first NUL byte.
\<close>

definition c_string :: "string \<Rightarrow> string" where
  "c_string buffer = takeWhile (\<lambda>c. c \<noteq> nul) buffer"

lemma fgets_shorter:
  "fgets 1024 file = Some (buffer, file') \<Longrightarrow> length file' < length file"
  by (auto simp: fgets_def Let_def split: if_splits option.splits)

subsection \<open>read\_multiline\<close>

text \<open>The \<^verbatim>\<open>while\<close> loop of \<^verbatim>\<open>read_multiline\<close>, on the accumulated result and the file.\<close>

function read_multiline_loop :: "string \<Rightarrow> string \<Rightarrow> string \<times> string" where
  "read_multiline_loop result file =
     (case fgets 1024 file of
        None \<Rightarrow> (result, file)
      | Some (buffer, file') \<Rightarrow>
          (let line = c_string buffer;
               result' = result @ line
           in if find_str line triple_quote \<noteq> None then (result', file')
              else read_multiline_loop result' file'))"
  by pat_completeness auto
termination
  by (relation "measure (\<lambda>(result, file). length file)") (auto dest: fgets_shorter)

declare read_multiline_loop.simps [simp del]

definition read_multiline :: "string \<Rightarrow> string \<times> string" where
  "read_multiline file =
     (case read_multiline_loop [] file of
        (result, file') \<Rightarrow>
          (if result \<noteq> [] \<and> last result = newline then butlast result else result, file'))"

subsection \<open>parse\_line\<close>

definition parse_line :: "string \<Rightarrow> ModelFile \<Rightarrow> string \<Rightarrow> ModelFile \<times> string" where
  "parse_line line model file =
     (if starts_with line ''FROM '' then
        (model\<lparr>from := substr line 5\<rparr>, file)
      else if starts_with line ''PARAMETER '' then
        (case find_char line CHR '' '' 10 of
           None \<Rightarrow> (model, file)
         | Some space_pos \<Rightarrow>
             (let param = substr_n line 10 (space_pos - 10);
                  val = substr line (space_pos + 1)
              in (model\<lparr>parameters := parameters model @ [(param, val)]\<rparr>, file)))
      else if starts_with line ''TEMPLATE '' then
        (model\<lparr>template_str := substr line 9\<rparr>, file)
      else if starts_with line ''SYSTEM '' then
        (let sys = substr line 7
         in if find_str sys triple_quote \<noteq> None then
              (case read_multiline file of
                 (continuation, file') \<Rightarrow> (model\<lparr>system := sys @ [newline] @ continuation\<rparr>, file'))
            else (model\<lparr>system := sys\<rparr>, file))
      else if starts_with line ''ADAPTER '' then
        (model\<lparr>adapter := substr line 8\<rparr>, file)
      else if starts_with line ''LICENSE '' then
        (let lic = substr line 8
         in if find_str lic triple_quote \<noteq> None then
              (case read_multiline file of
                 (continuation, file') \<Rightarrow> (model\<lparr>license := lic @ [newline] @ continuation\<rparr>, file'))
            else (model\<lparr>license := lic\<rparr>, file))
      else if starts_with line ''MESSAGE '' then
        (case find_char line CHR '' '' 8 of
           None \<Rightarrow> (model, file)
         | Some space_pos \<Rightarrow>
             (let role = substr_n line 8 (space_pos - 8);
                  message = substr line (space_pos + 1)
              in (model\<lparr>messages := messages model @ [(role, message)]\<rparr>, file)))
      else (model, file))"

lemma read_multiline_loop_length:
  "length (snd (read_multiline_loop result f)) \<le> length f"
proof (induction result f rule: read_multiline_loop.induct)
  case (1 result f)
  show ?case
  proof (cases "fgets 1024 f")
    case None
    then show ?thesis by (simp add: read_multiline_loop.simps [of result f])
  next
    case (Some p)
    obtain buffer f' where p: "p = (buffer, f')" by (cases p)
    have less: "length f' < length f"
      using Some p by (auto dest: fgets_shorter)
    show ?thesis
    proof (cases "find_str (c_string buffer) triple_quote \<noteq> None")
      case True
      then show ?thesis
        using Some p less by (simp add: read_multiline_loop.simps [of result f] Let_def)
    next
      case False
      have "length (snd (read_multiline_loop (result @ c_string buffer) f')) \<le> length f'"
        using "1.IH" [OF Some p [symmetric] refl refl] False by simp
      then show ?thesis
        using Some p less False
        by (simp add: read_multiline_loop.simps [of result f] Let_def)
    qed
  qed
qed

lemma read_multiline_length: "length (snd (read_multiline f)) \<le> length f"
  using read_multiline_loop_length [of "[]" f]
  by (auto simp: read_multiline_def split: prod.splits)

lemma parse_line_length: "length (snd (parse_line line model f)) \<le> length f"
proof (cases "read_multiline f")
  case (Pair continuation f')
  then have "length f' \<le> length f"
    using read_multiline_length [of f] by simp
  then show ?thesis
    using Pair by (simp add: parse_line_def Let_def split: option.splits)
qed

subsection \<open>parse\_modelfile\<close>

text \<open>The \<^verbatim>\<open>while\<close> loop of \<^verbatim>\<open>parse_modelfile\<close>, on the model and the file.\<close>

function parse_loop :: "ModelFile \<Rightarrow> string \<Rightarrow> ModelFile" where
  "parse_loop model file =
     (case fgets 1024 file of
        None \<Rightarrow> model
      | Some (buffer, file') \<Rightarrow>
          (let line = erase_trailing (c_string buffer)
           in if line = [] \<or> hd line = CHR ''#'' then parse_loop model file'
              else (case parse_line line model file' of
                      (model', file'') \<Rightarrow> parse_loop model' file'')))"
  by pat_completeness auto
termination
proof (relation "measure (\<lambda>(model, file). length file)", goal_cases)
  case 1
  show ?case by simp
next
  case (2 model f p buffer f' line)
  then show ?case by (auto dest: fgets_shorter)
next
  case (3 model f p buffer f' line model' f'')
  have "length f'' \<le> length f'"
    using parse_line_length [of line model f'] 3 by (metis snd_conv)
  moreover have "length f' < length f"
    using 3 by (auto dest: fgets_shorter)
  ultimately show ?case by simp
qed

declare parse_loop.simps [simp del]

text \<open>
  The file system is a partial map from file names to contents: \<^verbatim>\<open>fopen\<close> yields a null
  pointer exactly where the map has no entry.
\<close>

definition parse_modelfile :: "(string \<rightharpoonup> string) \<Rightarrow> string \<Rightarrow> ModelFile" where
  "parse_modelfile fs filename =
     (case fs filename of
        None \<Rightarrow> ModelFile_default
      | Some file \<Rightarrow> parse_loop ModelFile_default file)"

subsection \<open>Notions used to state the properties\<close>

text \<open>
  A line of the file that is already trimmed, holds no NUL byte and fits the buffer is
  handed to \<open>parse_line\<close> as it is.
\<close>

definition plain_line :: "string \<Rightarrow> bool" where
  "plain_line l =
     (l \<noteq> [] \<and> newline \<notin> set l \<and> nul \<notin> set l \<and> last l \<notin> set whitespace \<and>
      hd l \<noteq> CHR ''#'' \<and> length l \<le> 1022)"

text \<open>
  A directive value that reaches \<open>parse_line\<close> unchanged when it ends a line of the file:
  not empty, free of newline and NUL bytes, not ending in a trimmed character, and short
  enough for the line to fit the buffer.
\<close>

definition well_formed_value :: "string \<Rightarrow> bool" where
  "well_formed_value v =
     (v \<noteq> [] \<and> newline \<notin> set v \<and> nul \<notin> set v \<and> last v \<notin> set whitespace \<and>
      length v \<le> 1000)"

text \<open>
  The lines the source still holds: what successive \<^verbatim>\<open>fgets\<close> calls with the parser's
  buffer deliver, each as the C string the parser makes of it.
\<close>

function file_lines :: "string \<Rightarrow> string list" where
  "file_lines file =
     (case fgets 1024 file of
        None \<Rightarrow> []
      | Some (buffer, file') \<Rightarrow> c_string buffer # file_lines file')"
  by pat_completeness auto
termination
  by (relation "measure length") (auto dest: fgets_shorter)

declare file_lines.simps [simp del]

text \<open>
  The continuation protocol in the words of the specification: pull lines up to and
  including the first one that holds the marker, or all of them when none does.
\<close>

fun pull_until_marker :: "string list \<Rightarrow> string list" where
  "pull_until_marker [] = []"
| "pull_until_marker (l # ls) =
     (if find_str l triple_quote \<noteq> None then [l] else l # pull_until_marker ls)"

definition strip_one_newline :: "string \<Rightarrow> string" where
  "strip_one_newline b = (if b \<noteq> [] \<and> last b = newline then butlast b else b)"

text \<open>A value as the main loop can produce it: not empty and not ending in a trimmed character.\<close>

definition trimmed_value :: "string \<Rightarrow> bool" where
  "trimmed_value v = (v \<noteq> [] \<and> last v \<notin> set whitespace)"

text \<open>
  The physical lines of a text: it is cut after every newline, so each line but possibly
  the last ends in its newline, and the lines put together give the text back.
\<close>

fun physical_lines :: "string \<Rightarrow> string list" where
  "physical_lines [] = []"
| "physical_lines (c # cs) =
     (if c = newline then [c] # physical_lines cs
      else (case physical_lines cs of [] \<Rightarrow> [[c]] | l # ls \<Rightarrow> (c # l) # ls))"

text \<open>
  Every physical line fits the parser's buffer: at most 1023 bytes, newline included.
\<close>

definition lines_fit :: "string \<Rightarrow> bool" where
  "lines_fit f = list_all (\<lambda>l. length l \<le> 1023) (physical_lines f)"

text \<open>The length of the first physical line, its newline included.\<close>

definition first_line_length :: "string \<Rightarrow> nat" where
  "first_line_length f = (case index_of newline f of None \<Rightarrow> length f | Some i \<Rightarrow> i + 1)"

text \<open>
  The specification's reading of the input, on its physical lines. A line is trimmed on the
  right; a trimmed line that is empty or starts with \<^verbatim>\<open>#\<close> is skipped; a SYSTEM or LICENSE
  line whose value holds the marker takes the following lines, up to and including the
  first one that holds the marker, as its continuation. \<open>logical_lines\<close> lists the trimmed
  lines that are classified as directives, in the order of the input.
\<close>

definition rtrim :: "string \<Rightarrow> string" where
  "rtrim l = rev (dropWhile (\<lambda>c. c \<in> set whitespace) (rev l))"

definition opens_continuation :: "string \<Rightarrow> bool" where
  "opens_continuation t =
     ((starts_with t ''SYSTEM '' \<and> find_str (drop 7 t) triple_quote \<noteq> None) \<or>
      (starts_with t ''LICENSE '' \<and> find_str (drop 8 t) triple_quote \<noteq> None))"

function logical_lines :: "string list \<Rightarrow> string list" where
  "logical_lines [] = []"
| "logical_lines (l # ls) =
     (let t = rtrim l
      in if t = [] \<or> hd t = CHR ''#'' then logical_lines ls
         else t # logical_lines
                    (if opens_continuation t then drop (length (pull_until_marker ls)) ls
                     else ls))"
  by pat_completeness auto
termination
  by (relation "measure length") auto

declare logical_lines.simps(2) [simp del]

text \<open>
  The pair a classified line contributes for the keyword \<open>kw\<close> (\<^verbatim>\<open>PARAMETER \<close> or
  \<^verbatim>\<open>MESSAGE \<close>): the text behind the keyword is cut at its first space into key and value;
  a line without such a space, or with another keyword, contributes nothing.
\<close>

definition key_value_pair :: "string \<Rightarrow> string \<Rightarrow> (string \<times> string) list" where
  "key_value_pair kw line =
     (if starts_with line kw
      then (let r = drop (length kw) line
            in if CHR '' '' \<in> set r
               then [(takeWhile (\<lambda>c. c \<noteq> CHR '' '') r, tl (dropWhile (\<lambda>c. c \<noteq> CHR '' '') r))]
               else [])
      else [])"



subsection \<open>Facts about the string operations\<close>


lemma starts_with_append [simp]: "starts_with (p @ v) p"
  by (simp add: starts_with_def)

lemma starts_with_iff: "starts_with s p \<longleftrightarrow> (\<exists>v. s = p @ v)"
proof
  assume "starts_with s p"
  then have "s = p @ drop (length p) s"
    unfolding starts_with_def by (metis append_take_drop_id)
  then show "\<exists>v. s = p @ v" ..
next
  assume "\<exists>v. s = p @ v"
  then show "starts_with s p" by auto
qed

lemma index_of_None: "index_of c xs = None \<longleftrightarrow> c \<notin> set xs"
  by (induction xs) auto

lemma index_of_Some:
  "index_of c xs = Some i \<Longrightarrow> i < length xs \<and> xs ! i = c \<and> c \<notin> set (take i xs)"
proof (induction xs arbitrary: i)
  case Nil
  then show ?case by simp
next
  case (Cons x xs)
  show ?case
  proof (cases "x = c")
    case True
    with Cons.prems show ?thesis by simp
  next
    case False
    with Cons.prems obtain j where j: "index_of c xs = Some j" "i = Suc j"
      by auto
    from Cons.IH [OF j(1)] False j(2) show ?thesis by simp
  qed
qed

lemma index_of_first: "c \<notin> set k \<Longrightarrow> index_of c (k @ c # v) = Some (length k)"
  by (induction k) auto

lemma find_char_in_range: "find_char s c pos = Some i \<Longrightarrow> pos \<le> i \<and> i < length s \<and> s ! i = c"
proof -
  assume "find_char s c pos = Some i"
  then obtain j where j: "index_of c (drop pos s) = Some j" "i = pos + j"
    by (auto simp: find_char_def)
  from index_of_Some [OF j(1)] j(2) show ?thesis
    by (auto simp: add.commute)
qed

lemma find_char_split:
  "c \<notin> set k \<Longrightarrow> find_char (p @ k @ c # v) c (length p) = Some (length p + length k)"
  by (simp add: find_char_def index_of_first)

lemma find_char_absent:
  "c \<notin> set k \<Longrightarrow> find_char (p @ k) c (length p) = None"
  by (simp add: find_char_def index_of_None)

lemma find_str_iff: "find_str s pat \<noteq> None \<longleftrightarrow> (\<exists>a b. s = a @ pat @ b)"
proof (induction s)
  case Nil
  then show ?case by simp
next
  case (Cons c cs)
  show ?case
  proof (cases "starts_with (c # cs) pat")
    case True
    then obtain v where "c # cs = pat @ v"
      by (auto simp: starts_with_iff)
    then have "c # cs = [] @ pat @ v" by simp
    then have "\<exists>a b. c # cs = a @ pat @ b" by blast
    with True show ?thesis by simp
  next
    case False
    have "(\<exists>a b. c # cs = a @ pat @ b) \<longleftrightarrow> (\<exists>a b. cs = a @ pat @ b)"
    proof
      assume "\<exists>a b. c # cs = a @ pat @ b"
      then obtain a b where ab: "c # cs = a @ pat @ b" by blast
      have "a \<noteq> []"
        using ab False by (auto simp: starts_with_iff)
      then obtain a' where "a = c # a'"
        using ab by (cases a) auto
      with ab have "cs = a' @ pat @ b" by simp
      then show "\<exists>a b. cs = a @ pat @ b" by blast
    next
      assume "\<exists>a b. cs = a @ pat @ b"
      then obtain a b where "cs = a @ pat @ b" by blast
      then have "c # cs = (c # a) @ pat @ b" by simp
      then show "\<exists>a b. c # cs = a @ pat @ b" by blast
    qed
    with False Cons.IH show ?thesis by simp
  qed
qed

lemma erase_trailing_eq:
  "erase_trailing l = rev (dropWhile (\<lambda>c. c \<in> set whitespace) (rev l))"
proof (cases "dropWhile (\<lambda>c. c \<in> set whitespace) (rev l)")
  case Nil
  show ?thesis
    unfolding erase_trailing_def find_last_not_of_def Nil by simp
next
  case (Cons x r)
  have "rev l = takeWhile (\<lambda>c. c \<in> set whitespace) (rev l) @ x # r"
    using Cons by (metis takeWhile_dropWhile_id)
  then have "l = rev r @ x # rev (takeWhile (\<lambda>c. c \<in> set whitespace) (rev l))"
    by (metis rev_append rev.simps(2) rev_rev_ident append.assoc append_Cons append_Nil)
  then have "take (Suc (length r)) l = rev r @ [x]"
    by (metis append.assoc append_Cons append_Nil append_eq_conv_conj length_append_singleton length_rev)
  then show ?thesis
    using Cons by (simp add: erase_trailing_def find_last_not_of_def)
qed

lemma erase_trailing_last:
  "erase_trailing l \<noteq> [] \<Longrightarrow> last (erase_trailing l) \<notin> set whitespace"
proof -
  assume ne: "erase_trailing l \<noteq> []"
  let ?d = "dropWhile (\<lambda>c. c \<in> set whitespace) (rev l)"
  from ne have "?d \<noteq> []" by (simp add: erase_trailing_eq)
  then have "hd ?d \<notin> set whitespace" by (metis hd_dropWhile)
  moreover have "last (erase_trailing l) = hd ?d"
    using \<open>?d \<noteq> []\<close> by (simp add: erase_trailing_eq last_rev)
  ultimately show ?thesis by simp
qed

lemma erase_trailing_clean:
  "l \<noteq> [] \<Longrightarrow> last l \<notin> set whitespace \<Longrightarrow> erase_trailing (l @ [newline]) = l"
proof -
  assume l: "l \<noteq> []" "last l \<notin> set whitespace"
  then obtain x r where r: "rev l = x # r" "x \<notin> set whitespace"
    by (metis hd_rev list.sel(1) neq_Nil_conv rev_is_Nil_conv)
  have "newline \<in> set whitespace" by (simp add: whitespace_def newline_def)
  then have "dropWhile (\<lambda>c. c \<in> set whitespace) (rev (l @ [newline])) = x # r"
    using r by simp
  then show ?thesis
    using r by (simp add: erase_trailing_eq)
qed

subsection \<open>Facts about the line source and the main loop\<close>

lemma fgets_eof [simp]: "fgets n [] = None"
  by (simp add: fgets_def)

lemma fgets_line:
  "newline \<notin> set l \<Longrightarrow> length l \<le> 1022 \<Longrightarrow>
   fgets 1024 (l @ newline # rest) = Some (l @ [newline], rest)"
  by (simp add: fgets_def index_of_first)

lemma fgets_last_line:
  "newline \<notin> set l \<Longrightarrow> l \<noteq> [] \<Longrightarrow> length l \<le> 1023 \<Longrightarrow> fgets 1024 l = Some (l, [])"
proof -
  assume "newline \<notin> set l" "l \<noteq> []" "length l \<le> 1023"
  moreover from this have "index_of newline l = None"
    by (simp add: index_of_None)
  ultimately show ?thesis by (simp add: fgets_def)
qed

lemma c_string_id: "nul \<notin> set l \<Longrightarrow> c_string l = l"
  by (auto simp: c_string_def takeWhile_eq_all_conv)

lemma parse_loop_eof [simp]: "parse_loop model [] = model"
  by (simp add: parse_loop.simps [of model "[]"])


lemma parse_loop_dispatch:
  assumes "fgets 1024 f = Some (buffer, f')"
    and "erase_trailing (c_string buffer) = line"
    and "line \<noteq> []" and "hd line \<noteq> CHR ''#''"
  shows "parse_loop model f =
         parse_loop (fst (parse_line line model f')) (snd (parse_line line model f'))"
  using assms by (simp add: parse_loop.simps [of model f] Let_def split: prod.splits)

lemma parse_loop_plain_line:
  assumes "plain_line l"
  shows "parse_loop model (l @ newline # rest) =
         parse_loop (fst (parse_line l model rest)) (snd (parse_line l model rest))"
proof -
  have fg: "fgets 1024 (l @ newline # rest) = Some (l @ [newline], rest)"
    using assms by (simp add: plain_line_def fgets_line)
  have "nul \<notin> set (l @ [newline])"
    using assms by (simp add: plain_line_def nul_def newline_def)
  then have cs: "c_string (l @ [newline]) = l @ [newline]"
    by (rule c_string_id)
  have "erase_trailing (c_string (l @ [newline])) = l"
    using assms by (simp add: cs plain_line_def erase_trailing_clean)
  from parse_loop_dispatch [OF fg this] assms show ?thesis
    by (simp add: plain_line_def)
qed

lemma parse_line_FROM: "parse_line (''FROM '' @ v) model f = (model\<lparr>from := v\<rparr>, f)"
  by (simp add: parse_line_def starts_with_def substr_def)

lemma parse_line_TEMPLATE:
  "parse_line (''TEMPLATE '' @ v) model f = (model\<lparr>template_str := v\<rparr>, f)"
  by (simp add: parse_line_def starts_with_def substr_def)

lemma parse_line_ADAPTER:
  "parse_line (''ADAPTER '' @ v) model f = (model\<lparr>adapter := v\<rparr>, f)"
  by (simp add: parse_line_def starts_with_def substr_def)

lemma plain_line_keyword:
  assumes "well_formed_value v" and "kw \<noteq> []" and "hd kw \<noteq> CHR ''#''"
    and "newline \<notin> set kw" and "nul \<notin> set kw" and "length kw \<le> 22"
  shows "plain_line (kw @ v)"
  using assms by (simp add: plain_line_def well_formed_value_def)

subsection \<open>Single-line directives\<close>

text \<open>
  Claim C3. For a FROM, TEMPLATE or ADAPTER line (the keyword, one space, then the value
  \<open>v\<close>), \<open>parse_line\<close> stores exactly \<open>v\<close> in the corresponding field and leaves the
  file position alone. The same holds end to end: a file with this one line, \<open>v\<close> being
  a well-formed value, parses to the default document with that field set to \<open>v\<close>.
\<close>

theorem single_line_directive_value:
  "parse_line (''FROM '' @ v) model f = (model\<lparr>from := v\<rparr>, f) \<and>
   parse_line (''TEMPLATE '' @ v) model f = (model\<lparr>template_str := v\<rparr>, f) \<and>
   parse_line (''ADAPTER '' @ v) model f = (model\<lparr>adapter := v\<rparr>, f) \<and>
   (well_formed_value v \<longrightarrow>
      parse_modelfile [name \<mapsto> ''FROM '' @ v @ [newline]] name = ModelFile_default\<lparr>from := v\<rparr> \<and>
      parse_modelfile [name \<mapsto> ''TEMPLATE '' @ v @ [newline]] name =
        ModelFile_default\<lparr>template_str := v\<rparr> \<and>
      parse_modelfile [name \<mapsto> ''ADAPTER '' @ v @ [newline]] name =
        ModelFile_default\<lparr>adapter := v\<rparr>)"
proof -
  have end_to_end: "parse_modelfile [name \<mapsto> kw @ v @ [newline]] name = m'"
    if "well_formed_value v" "kw \<noteq> []" "hd kw \<noteq> CHR ''#''" "newline \<notin> set kw"
      "nul \<notin> set kw" "length kw \<le> 22" "parse_line (kw @ v) ModelFile_default [] = (m', [])"
    for kw m'
  proof -
    have "plain_line (kw @ v)"
      using that by (simp add: plain_line_keyword)
    from parse_loop_plain_line [OF this, of ModelFile_default "[]"] that(7)
    show ?thesis by (simp add: parse_modelfile_def)
  qed
  have "parse_modelfile [name \<mapsto> ''FROM '' @ v @ [newline]] name = ModelFile_default\<lparr>from := v\<rparr>"
    if "well_formed_value v"
    by (rule end_to_end [OF that _ _ _ _ _ parse_line_FROM]) (simp_all add: newline_def nul_def)
  moreover have "parse_modelfile [name \<mapsto> ''TEMPLATE '' @ v @ [newline]] name =
      ModelFile_default\<lparr>template_str := v\<rparr>"
    if "well_formed_value v"
    by (rule end_to_end [OF that _ _ _ _ _ parse_line_TEMPLATE]) (simp_all add: newline_def nul_def)
  moreover have "parse_modelfile [name \<mapsto> ''ADAPTER '' @ v @ [newline]] name =
      ModelFile_default\<lparr>adapter := v\<rparr>"
    if "well_formed_value v"
    by (rule end_to_end [OF that _ _ _ _ _ parse_line_ADAPTER]) (simp_all add: newline_def nul_def)
  moreover note parse_line_FROM [of v model f] parse_line_TEMPLATE [of v model f]
    parse_line_ADAPTER [of v model f]
  ultimately show ?thesis by blast
qed

theorem single_line_directive_value_witness:
  "well_formed_value ''llama3'' \<and>
   parse_modelfile [''Modelfile'' \<mapsto> ''FROM llama3'' @ [newline]] ''Modelfile'' =
     ModelFile_default\<lparr>from := ''llama3''\<rparr> \<and>
   parse_modelfile [''Modelfile'' \<mapsto> ''TEMPLATE llama3'' @ [newline]] ''Modelfile'' =
     ModelFile_default\<lparr>template_str := ''llama3''\<rparr> \<and>
   parse_modelfile [''Modelfile'' \<mapsto> ''ADAPTER llama3'' @ [newline]] ''Modelfile'' =
     ModelFile_default\<lparr>adapter := ''llama3''\<rparr>"
proof -
  have wf: "well_formed_value ''llama3''"
    by (simp add: well_formed_value_def newline_def nul_def whitespace_def)
  from single_line_directive_value [of "''llama3''" ModelFile_default "[]" "''Modelfile''"] wf
  show ?thesis by simp
qed

subsection \<open>Key and value lines: PARAMETER and MESSAGE\<close>

lemma find_char_after_prefix:
  "c \<notin> set k \<Longrightarrow> length p = n \<Longrightarrow> find_char (p @ k @ c # v) c n = Some (n + length k)"
  using find_char_split [of c k p v] by simp

lemma substr_after_separator:
  "length p = n \<Longrightarrow> substr (p @ k @ c # v) (n + length k + 1) = v"
  by (auto simp: substr_def)

lemma substr_n_before_separator:
  "length p = n \<Longrightarrow> substr_n (p @ k @ c # v) n (n + length k - n) = k"
  by (auto simp: substr_n_def)

lemma find_char_none_after_prefix:
  "c \<notin> set k \<Longrightarrow> length p = n \<Longrightarrow> find_char (p @ k) c n = None"
  using find_char_absent [of c k p] by simp

lemma parse_line_PARAMETER_pair:
  assumes "CHR '' '' \<notin> set k"
  shows "parse_line (''PARAMETER '' @ k @ CHR '' '' # v) model f =
         (model\<lparr>parameters := parameters model @ [(k, v)]\<rparr>, f)"
proof -
  have "find_char (''PARAMETER '' @ k @ CHR '' '' # v) CHR '' '' 10 = Some (10 + length k)"
    using assms by (rule find_char_after_prefix) simp
  moreover have "starts_with (''PARAMETER '' @ k @ CHR '' '' # v) ''PARAMETER ''"
    by (rule starts_with_append)
  moreover have "\<not> starts_with (''PARAMETER '' @ k @ CHR '' '' # v) ''FROM ''"
    by (simp add: starts_with_def)
  moreover have "substr_n (''PARAMETER '' @ k @ CHR '' '' # v) 10 (10 + length k - 10) = k"
    by (rule substr_n_before_separator) simp
  moreover have "substr (''PARAMETER '' @ k @ CHR '' '' # v) (10 + length k + 1) = v"
    by (rule substr_after_separator) simp
  ultimately show ?thesis
    by (simp only: parse_line_def if_True if_False option.case Let_def)
qed

lemma parse_line_PARAMETER_nospace:
  assumes "CHR '' '' \<notin> set k"
  shows "parse_line (''PARAMETER '' @ k) model f = (model, f)"
proof -
  have "find_char (''PARAMETER '' @ k) CHR '' '' 10 = None"
    using assms by (rule find_char_none_after_prefix) simp
  moreover have "starts_with (''PARAMETER '' @ k) ''PARAMETER ''"
    by (rule starts_with_append)
  moreover have "\<not> starts_with (''PARAMETER '' @ k) ''FROM ''"
    by (simp add: starts_with_def)
  ultimately show ?thesis
    by (simp only: parse_line_def if_True if_False option.case)
qed

lemma parse_line_MESSAGE_pair:
  assumes "CHR '' '' \<notin> set k"
  shows "parse_line (''MESSAGE '' @ k @ CHR '' '' # v) model f =
         (model\<lparr>messages := messages model @ [(k, v)]\<rparr>, f)"
proof -
  let ?l = "''MESSAGE '' @ k @ CHR '' '' # v"
  have "find_char ?l CHR '' '' 8 = Some (8 + length k)"
    using assms by (rule find_char_after_prefix) simp
  moreover have "starts_with ?l ''MESSAGE ''"
    by (rule starts_with_append)
  moreover have "\<not> starts_with ?l ''FROM ''" "\<not> starts_with ?l ''PARAMETER ''"
    "\<not> starts_with ?l ''TEMPLATE ''" "\<not> starts_with ?l ''SYSTEM ''"
    "\<not> starts_with ?l ''ADAPTER ''" "\<not> starts_with ?l ''LICENSE ''"
    by (simp_all add: starts_with_def)
  moreover have "substr_n ?l 8 (8 + length k - 8) = k"
    by (rule substr_n_before_separator) simp
  moreover have "substr ?l (8 + length k + 1) = v"
    by (rule substr_after_separator) simp
  ultimately show ?thesis
    by (simp only: parse_line_def if_True if_False option.case Let_def)
qed

lemma parse_line_MESSAGE_nospace:
  assumes "CHR '' '' \<notin> set k"
  shows "parse_line (''MESSAGE '' @ k) model f = (model, f)"
proof -
  let ?l = "''MESSAGE '' @ k"
  have "find_char ?l CHR '' '' 8 = None"
    using assms by (rule find_char_none_after_prefix) simp
  moreover have "starts_with ?l ''MESSAGE ''"
    by (rule starts_with_append)
  moreover have "\<not> starts_with ?l ''FROM ''" "\<not> starts_with ?l ''PARAMETER ''"
    "\<not> starts_with ?l ''TEMPLATE ''" "\<not> starts_with ?l ''SYSTEM ''"
    "\<not> starts_with ?l ''ADAPTER ''" "\<not> starts_with ?l ''LICENSE ''"
    by (simp_all add: starts_with_def)
  ultimately show ?thesis
    by (simp only: parse_line_def if_True if_False option.case)
qed

text \<open>
  Every line behind a keyword is of one of the two shapes the key and value lemmas speak
  about: a space-free key alone, or a space-free key, a space and a value.
\<close>

lemma keyword_line_cases:
  assumes "starts_with line kw"
  shows "(\<exists>k. CHR '' '' \<notin> set k \<and> line = kw @ k) \<or>
         (\<exists>k v. CHR '' '' \<notin> set k \<and> line = kw @ k @ '' '' @ v)"
proof -
  obtain r where r: "line = kw @ r"
    using assms by (auto simp: starts_with_iff)
  let ?k = "takeWhile (\<lambda>c. c \<noteq> CHR '' '') r"
  let ?d = "dropWhile (\<lambda>c. c \<noteq> CHR '' '') r"
  have k: "CHR '' '' \<notin> set ?k"
    by (auto dest: set_takeWhileD)
  have split: "r = ?k @ ?d" by simp
  show ?thesis
  proof (cases ?d)
    case Nil
    with split have "line = kw @ ?k" by (simp add: r)
    with k show ?thesis by blast
  next
    case (Cons x v)
    then have "x = CHR '' ''"
      using hd_dropWhile [of "\<lambda>c. c \<noteq> CHR '' ''" r] by auto
    with Cons split have "r = ?k @ '' '' @ v" by simp
    then have "line = kw @ ?k @ '' '' @ v" by (simp add: r)
    with k show ?thesis by blast
  qed
qed

text \<open>
  Claim C2. A PARAMETER line is split at the first space at or after offset 10: for a key
  \<open>k\<close> without a space, the line \<^verbatim>\<open>PARAMETER k v\<close> appends the one pair \<open>(k, v)\<close> to
  \<open>parameters\<close>, and the line \<^verbatim>\<open>PARAMETER k\<close>, which has no such space, changes nothing
  and raises nothing. The witness is \<^verbatim>\<open>PARAMETER temperature 0.7\<close> and
  \<^verbatim>\<open>PARAMETER onlykey\<close>, also through \<open>parse_modelfile\<close>.
\<close>

theorem parameter_line:
  assumes "CHR '' '' \<notin> set k"
  shows "parse_line (''PARAMETER '' @ k @ '' '' @ v) model f =
           (model\<lparr>parameters := parameters model @ [(k, v)]\<rparr>, f) \<and>
         parse_line (''PARAMETER '' @ k) model f = (model, f)"
  using parse_line_PARAMETER_pair [OF assms, of v model f]
    parse_line_PARAMETER_nospace [OF assms, of model f]
  by simp

theorem parameter_line_witness:
  "CHR '' '' \<notin> set ''temperature'' \<and> CHR '' '' \<notin> set ''onlykey'' \<and>
   parse_line ''PARAMETER temperature 0.7'' ModelFile_default [] =
     (ModelFile_default\<lparr>parameters := [(''temperature'', ''0.7'')]\<rparr>, []) \<and>
   parse_line ''PARAMETER onlykey'' ModelFile_default [] = (ModelFile_default, []) \<and>
   parse_modelfile [''Modelfile'' \<mapsto> ''PARAMETER temperature 0.7'' @ [newline]] ''Modelfile'' =
     ModelFile_default\<lparr>parameters := [(''temperature'', ''0.7'')]\<rparr> \<and>
   parse_modelfile [''Modelfile'' \<mapsto> ''PARAMETER onlykey'' @ [newline]] ''Modelfile'' =
     ModelFile_default"
proof -
  have k1: "CHR '' '' \<notin> set ''temperature''" and k2: "CHR '' '' \<notin> set ''onlykey''"
    by simp_all
  have p1: "parse_line ''PARAMETER temperature 0.7'' ModelFile_default [] =
      (ModelFile_default\<lparr>parameters := [(''temperature'', ''0.7'')]\<rparr>, [])"
    using parameter_line [OF k1, of "''0.7''" ModelFile_default "[]"]
    by (simp add: ModelFile_default_def)
  have p2: "parse_line ''PARAMETER onlykey'' ModelFile_default [] = (ModelFile_default, [])"
    using parameter_line [OF k2, of "[]" ModelFile_default "[]"] by simp
  have "plain_line ''PARAMETER temperature 0.7''" "plain_line ''PARAMETER onlykey''"
    by (simp_all add: plain_line_def newline_def nul_def whitespace_def)
  from parse_loop_plain_line [OF this(1), of ModelFile_default "[]"]
    parse_loop_plain_line [OF this(2), of ModelFile_default "[]"]
  have "parse_loop ModelFile_default (''PARAMETER temperature 0.7'' @ [newline]) =
      ModelFile_default\<lparr>parameters := [(''temperature'', ''0.7'')]\<rparr>"
    "parse_loop ModelFile_default (''PARAMETER onlykey'' @ [newline]) = ModelFile_default"
    by (simp_all add: p1 p2)
  with k1 k2 p1 p2 show ?thesis
    by (simp add: parse_modelfile_def)
qed

text \<open>
  Claim C10. A second space right after the keyword's separating space is found as the
  separator itself, so the role or key is empty: \<^verbatim>\<open>MESSAGE  hello\<close> appends
  \<open>('''', ''hello'')\<close> to \<open>messages\<close> and \<^verbatim>\<open>PARAMETER  0.7\<close> appends \<open>('''', ''0.7'')\<close> to
  \<open>parameters\<close>; both lines reach \<open>parse_line\<close> unchanged from a file.
\<close>

theorem empty_key_or_role:
  "parse_line (''MESSAGE  '' @ v) model f = (model\<lparr>messages := messages model @ [([], v)]\<rparr>, f) \<and>
   parse_line (''PARAMETER  '' @ v) model f =
     (model\<lparr>parameters := parameters model @ [([], v)]\<rparr>, f) \<and>
   parse_line ''MESSAGE  hello'' model f =
     (model\<lparr>messages := messages model @ [([], ''hello'')]\<rparr>, f) \<and>
   parse_line ''PARAMETER  0.7'' model f =
     (model\<lparr>parameters := parameters model @ [([], ''0.7'')]\<rparr>, f) \<and>
   parse_modelfile
     [''Modelfile'' \<mapsto> ''MESSAGE  hello'' @ [newline] @ ''PARAMETER  0.7'' @ [newline]]
     ''Modelfile'' =
     ModelFile_default\<lparr>messages := [([], ''hello'')], parameters := [([], ''0.7'')]\<rparr>"
proof -
  have "parse_modelfile
     [''Modelfile'' \<mapsto> ''MESSAGE  hello'' @ [newline] @ ''PARAMETER  0.7'' @ [newline]]
     ''Modelfile'' =
     ModelFile_default\<lparr>messages := [([], ''hello'')], parameters := [([], ''0.7'')]\<rparr>"
    by code_simp
  with parse_line_MESSAGE_pair [of "[]" v model f] parse_line_PARAMETER_pair [of "[]" v model f]
    parse_line_MESSAGE_pair [of "[]" "''hello''" model f]
    parse_line_PARAMETER_pair [of "[]" "''0.7''" model f]
  show ?thesis by simp
qed

subsection \<open>A source that cannot be opened\<close>

text \<open>
  Claim C5. When the file cannot be opened, \<open>parse_modelfile\<close> returns the document with
  every string and both sequences empty, and nothing else: there is no error value. The
  result is the one an existing, empty file gives.
\<close>

theorem source_unavailable:
  assumes "fs filename = None"
  shows "parse_modelfile fs filename =
           \<lparr>from = [], parameters = [], template_str = [], system = [], adapter = [],
            license = [], messages = []\<rparr> \<and>
         parse_modelfile (fs(filename \<mapsto> [])) filename = parse_modelfile fs filename"
  using assms by (simp add: parse_modelfile_def ModelFile_default_def)

theorem source_unavailable_witness:
  "parse_modelfile Map.empty ''Modelfile'' =
     \<lparr>from = [], parameters = [], template_str = [], system = [], adapter = [],
      license = [], messages = []\<rparr> \<and>
   parse_modelfile [''Modelfile'' \<mapsto> []] ''Modelfile'' = parse_modelfile Map.empty ''Modelfile''"
  using source_unavailable [of Map.empty "''Modelfile''"] by simp

subsection \<open>The continuation reader\<close>

lemma file_lines_eof [simp]: "file_lines [] = []"
  by (simp add: file_lines.simps [of "[]"])

lemma file_lines_step:
  "fgets 1024 f = Some (buffer, f') \<Longrightarrow> file_lines f = c_string buffer # file_lines f'"
  by (simp add: file_lines.simps [of f])

text \<open>A line that fits the buffer and holds no NUL byte is delivered whole.\<close>

lemma file_lines_physical:
  assumes "newline \<notin> set l" and "nul \<notin> set l" and "length l \<le> 1022"
  shows "file_lines (l @ newline # rest) = (l @ [newline]) # file_lines rest"
proof -
  have "fgets 1024 (l @ newline # rest) = Some (l @ [newline], rest)"
    using assms by (simp add: fgets_line)
  moreover have "c_string (l @ [newline]) = l @ [newline]"
    using assms by (simp add: c_string_id nul_def newline_def)
  ultimately show ?thesis by (simp add: file_lines_step)
qed

lemma file_lines_Nil: "fgets 1024 f = None \<Longrightarrow> file_lines f = []"
  by (simp add: file_lines.simps [of f])

lemma read_multiline_loop_spec:
  "read_multiline_loop result f = (r, f') \<Longrightarrow>
   r = result @ concat (pull_until_marker (file_lines f)) \<and>
   file_lines f' = drop (length (pull_until_marker (file_lines f))) (file_lines f)"
proof (induction result f arbitrary: r f' rule: read_multiline_loop.induct)
  case (1 result f)
  show ?case
  proof (cases "fgets 1024 f")
    case None
    with "1.prems" show ?thesis
      by (simp add: read_multiline_loop.simps [of result f] file_lines_Nil)
  next
    case (Some p)
    obtain buffer g where p: "p = (buffer, g)" by (cases p)
    have fl: "file_lines f = c_string buffer # file_lines g"
      using Some p by (simp add: file_lines_step)
    show ?thesis
    proof (cases "find_str (c_string buffer) triple_quote \<noteq> None")
      case True
      with "1.prems" Some p fl show ?thesis
        by (simp add: read_multiline_loop.simps [of result f] Let_def)
    next
      case False
      have "read_multiline_loop (result @ c_string buffer) g = (r, f')"
        using "1.prems" Some p False
        by (simp add: read_multiline_loop.simps [of result f] Let_def)
      from "1.IH" [OF Some p [symmetric] refl refl _ this] False
      have "r = (result @ c_string buffer) @ concat (pull_until_marker (file_lines g)) \<and>
            file_lines f' = drop (length (pull_until_marker (file_lines g))) (file_lines g)"
        by simp
      with fl False show ?thesis by simp
    qed
  qed
qed

lemma read_multiline_spec:
  "read_multiline f = (r, f') \<Longrightarrow>
   r = strip_one_newline (concat (pull_until_marker (file_lines f))) \<and>
   file_lines f' = drop (length (pull_until_marker (file_lines f))) (file_lines f)"
proof -
  assume rm: "read_multiline f = (r, f')"
  obtain res g where loop: "read_multiline_loop [] f = (res, g)"
    by (cases "read_multiline_loop [] f")
  from read_multiline_loop_spec [OF loop]
  have "res = concat (pull_until_marker (file_lines f))"
    and "file_lines g = drop (length (pull_until_marker (file_lines f))) (file_lines f)"
    by simp_all
  with rm loop show ?thesis
    by (auto simp: read_multiline_def strip_one_newline_def)
qed

lemma parse_line_SYSTEM:
  "parse_line (''SYSTEM '' @ v) model f =
     (if find_str v triple_quote \<noteq> None
      then (model\<lparr>system := v @ [newline] @ fst (read_multiline f)\<rparr>, snd (read_multiline f))
      else (model\<lparr>system := v\<rparr>, f))"
  by (simp add: parse_line_def starts_with_def substr_def Let_def split: prod.splits)

lemma parse_line_LICENSE:
  "parse_line (''LICENSE '' @ v) model f =
     (if find_str v triple_quote \<noteq> None
      then (model\<lparr>license := v @ [newline] @ fst (read_multiline f)\<rparr>, snd (read_multiline f))
      else (model\<lparr>license := v\<rparr>, f))"
  by (simp add: parse_line_def starts_with_def substr_def Let_def split: prod.splits)

subsection \<open>A continuation that is never closed\<close>

lemma pull_until_marker_all:
  "list_all (\<lambda>l. find_str l triple_quote = None) ls \<Longrightarrow> pull_until_marker ls = ls"
  by (induction ls) auto

lemma file_lines_empty_iff: "file_lines f = [] \<longleftrightarrow> f = []"
proof
  assume nil: "file_lines f = []"
  show "f = []"
  proof (rule ccontr)
    assume "f \<noteq> []"
    then obtain buffer f' where "fgets 1024 f = Some (buffer, f')"
      by (auto simp: fgets_def Let_def)
    then have "file_lines f \<noteq> []"
      by (simp add: file_lines_step)
    with nil show False by simp
  qed
next
  assume "f = []"
  then show "file_lines f = []" by simp
qed

lemma read_multiline_unterminated:
  assumes "list_all (\<lambda>l. find_str l triple_quote = None) (file_lines f)"
  shows "read_multiline f = (strip_one_newline (concat (file_lines f)), [])"
proof -
  obtain r f' where rm: "read_multiline f = (r, f')"
    by (cases "read_multiline f")
  from read_multiline_spec [OF rm] pull_until_marker_all [OF assms]
  have "r = strip_one_newline (concat (file_lines f))" and "file_lines f' = []"
    by simp_all
  with rm show ?thesis by (simp add: file_lines_empty_iff)
qed

text \<open>
  Claim C6. A SYSTEM or LICENSE line opens a continuation and no later line of the source
  holds the marker: the reader stops at the end of the input, the field holds the value,
  a newline and everything that was left in the source (one trailing newline stripped),
  and nothing is raised; the main loop then finds the source exhausted and returns the
  document.
\<close>

theorem unterminated_continuation:
  assumes "find_str v triple_quote \<noteq> None"
    and "list_all (\<lambda>l. find_str l triple_quote = None) (file_lines f)"
  shows "parse_line (''SYSTEM '' @ v) model f =
           (model\<lparr>system := v @ [newline] @ strip_one_newline (concat (file_lines f))\<rparr>, []) \<and>
         parse_line (''LICENSE '' @ v) model f =
           (model\<lparr>license := v @ [newline] @ strip_one_newline (concat (file_lines f))\<rparr>, []) \<and>
         (plain_line (''SYSTEM '' @ v) \<longrightarrow>
            parse_loop model ((''SYSTEM '' @ v) @ newline # f) =
              model\<lparr>system := v @ [newline] @ strip_one_newline (concat (file_lines f))\<rparr>) \<and>
         (plain_line (''LICENSE '' @ v) \<longrightarrow>
            parse_loop model ((''LICENSE '' @ v) @ newline # f) =
              model\<lparr>license := v @ [newline] @ strip_one_newline (concat (file_lines f))\<rparr>)"
proof -
  note rm = read_multiline_unterminated [OF assms(2)]
  have sys: "parse_line (''SYSTEM '' @ v) model f =
      (model\<lparr>system := v @ [newline] @ strip_one_newline (concat (file_lines f))\<rparr>, [])"
    unfolding parse_line_SYSTEM using assms(1) rm by simp
  have lic: "parse_line (''LICENSE '' @ v) model f =
      (model\<lparr>license := v @ [newline] @ strip_one_newline (concat (file_lines f))\<rparr>, [])"
    unfolding parse_line_LICENSE using assms(1) rm by simp
  have "parse_loop model ((''SYSTEM '' @ v) @ newline # f) =
      model\<lparr>system := v @ [newline] @ strip_one_newline (concat (file_lines f))\<rparr>"
    if "plain_line (''SYSTEM '' @ v)"
    unfolding parse_loop_plain_line [OF that] sys by simp
  moreover have "parse_loop model ((''LICENSE '' @ v) @ newline # f) =
      model\<lparr>license := v @ [newline] @ strip_one_newline (concat (file_lines f))\<rparr>"
    if "plain_line (''LICENSE '' @ v)"
    unfolding parse_loop_plain_line [OF that] lic by simp
  ultimately show ?thesis
    using sys lic by blast
qed

theorem unterminated_continuation_witness:
  "find_str (triple_quote @ ''Part one'') triple_quote \<noteq> None \<and>
   list_all (\<lambda>l. find_str l triple_quote = None)
     (file_lines (''never closed'' @ [newline] @ ''FROM x'' @ [newline])) \<and>
   plain_line (''SYSTEM '' @ triple_quote @ ''Part one'') \<and>
   plain_line (''LICENSE '' @ triple_quote @ ''Part one'') \<and>
   parse_loop ModelFile_default
     ((''SYSTEM '' @ triple_quote @ ''Part one'') @ newline #
        ''never closed'' @ [newline] @ ''FROM x'' @ [newline]) =
     ModelFile_default\<lparr>system :=
       triple_quote @ ''Part one'' @ [newline] @ ''never closed'' @ [newline] @ ''FROM x''\<rparr> \<and>
   parse_loop ModelFile_default
     ((''LICENSE '' @ triple_quote @ ''Part one'') @ newline #
        ''never closed'' @ [newline] @ ''FROM x'' @ [newline]) =
     ModelFile_default\<lparr>license :=
       triple_quote @ ''Part one'' @ [newline] @ ''never closed'' @ [newline] @ ''FROM x''\<rparr>"
proof -
  let ?v = "triple_quote @ ''Part one''"
  let ?f = "''never closed'' @ [newline] @ ''FROM x'' @ [newline]"
  have h1: "find_str ?v triple_quote \<noteq> None"
    by code_simp
  have h2: "list_all (\<lambda>l. find_str l triple_quote = None) (file_lines ?f)"
    by code_simp
  have h3: "plain_line (''SYSTEM '' @ ?v)" and h4: "plain_line (''LICENSE '' @ ?v)"
    by code_simp+
  have acc: "strip_one_newline (concat (file_lines ?f)) = ''never closed'' @ [newline] @ ''FROM x''"
    by code_simp
  from unterminated_continuation [OF h1 h2, of ModelFile_default] h1 h2 h3 h4 acc
  show ?thesis by simp
qed

subsection \<open>Values of the pairs\<close>

lemma substr_trimmed:
  assumes "find_char line CHR '' '' pos = Some i" and "line \<noteq> []"
    and "last line \<notin> set whitespace"
  shows "trimmed_value (substr line (i + 1))"
proof -
  from find_char_in_range [OF assms(1)] have i: "i < length line" "line ! i = CHR '' ''"
    by simp_all
  have "CHR '' '' \<in> set whitespace"
    by (simp add: whitespace_def)
  with assms(3) have "last line \<noteq> CHR '' ''" by auto
  then have "line ! (length line - 1) \<noteq> line ! i"
    using i(2) assms(2) by (simp add: last_conv_nth)
  then have "i \<noteq> length line - 1" by auto
  with i(1) have lt: "i + 1 < length line" by simp
  then have "drop (i + 1) line \<noteq> []" by simp
  moreover have "last (drop (i + 1) line) = last line"
    using lt by (simp add: last_drop)
  ultimately show ?thesis
    using assms(3) by (simp add: trimmed_value_def substr_def)
qed

lemma parse_line_values:
  assumes "line \<noteq> []" and "last line \<notin> set whitespace"
    and "list_all (\<lambda>(k, v). trimmed_value v) (parameters model)"
    and "list_all (\<lambda>(k, v). trimmed_value v) (messages model)"
  shows "list_all (\<lambda>(k, v). trimmed_value v) (parameters (fst (parse_line line model f))) \<and>
         list_all (\<lambda>(k, v). trimmed_value v) (messages (fst (parse_line line model f)))"
proof -
  have "trimmed_value (substr line (i + 1))" if "find_char line CHR '' '' pos = Some i" for pos i
    using that assms(1,2) by (rule substr_trimmed)
  then show ?thesis
    using assms(3,4)
    by (simp add: parse_line_def Let_def split: option.splits prod.splits)
qed

lemma parse_loop_values:
  "list_all (\<lambda>(k, v). trimmed_value v) (parameters model) \<Longrightarrow>
   list_all (\<lambda>(k, v). trimmed_value v) (messages model) \<Longrightarrow>
   list_all (\<lambda>(k, v). trimmed_value v) (parameters (parse_loop model f)) \<and>
   list_all (\<lambda>(k, v). trimmed_value v) (messages (parse_loop model f))"
proof (induction model f rule: parse_loop.induct)
  case (1 model f)
  show ?case
  proof (cases "fgets 1024 f")
    case None
    with "1.prems" show ?thesis
      by (simp add: parse_loop.simps [of model f])
  next
    case (Some p)
    obtain buffer f' where p: "p = (buffer, f')" by (cases p)
    define line where "line = erase_trailing (c_string buffer)"
    show ?thesis
    proof (cases "line = [] \<or> hd line = CHR ''#''")
      case True
      then have "parse_loop model f = parse_loop model f'"
        using Some p by (simp add: parse_loop.simps [of model f] line_def)
      moreover have "list_all (\<lambda>(k, v). trimmed_value v) (parameters (parse_loop model f')) \<and>
          list_all (\<lambda>(k, v). trimmed_value v) (messages (parse_loop model f'))"
        using "1.IH"(1) [OF Some p [symmetric] line_def True] "1.prems" by simp
      ultimately show ?thesis by simp
    next
      case False
      obtain model' f'' where pl: "parse_line line model f' = (model', f'')"
        by (cases "parse_line line model f'")
      have "line \<noteq> []" and "last line \<notin> set whitespace"
        using False erase_trailing_last [of "c_string buffer"] by (simp_all add: line_def)
      from parse_line_values [OF this "1.prems", of f'] pl
      have inv: "list_all (\<lambda>(k, v). trimmed_value v) (parameters model')"
        "list_all (\<lambda>(k, v). trimmed_value v) (messages model')"
        by simp_all
      have "parse_loop model f = parse_loop model' f''"
        using Some p False pl by (simp add: parse_loop.simps [of model f] line_def)
      moreover have "list_all (\<lambda>(k, v). trimmed_value v) (parameters (parse_loop model' f'')) \<and>
          list_all (\<lambda>(k, v). trimmed_value v) (messages (parse_loop model' f''))"
        using "1.IH"(2) [OF Some p [symmetric] line_def False pl [symmetric] inv] .
      ultimately show ?thesis by simp
    qed
  qed
qed

text \<open>
  Claim C9. Every pair that \<open>parse_modelfile\<close> puts into \<open>parameters\<close> or \<open>messages\<close> has a
  value that is not empty and whose last character is none of space, newline, carriage
  return and tab: the line is right-trimmed before \<open>parse_line\<close> sees it, so the separating
  space is never its last character. The witness is a file whose PARAMETER line ends in
  spaces; the line \<^verbatim>\<open>PARAMETER key \<close>, which gives an empty value when handed to
  \<open>parse_line\<close> directly, gives no pair at all when it comes from a file.
\<close>

theorem pair_values_trimmed:
  assumes "(k, v) \<in> set (parameters (parse_modelfile fs filename)) \<union>
                     set (messages (parse_modelfile fs filename))"
  shows "v \<noteq> [] \<and> last v \<notin> {CHR '' '', CHR 0x09, CHR 0x0D, CHR 0x0A}"
proof -
  have "list_all (\<lambda>(k, v). trimmed_value v) (parameters (parse_modelfile fs filename)) \<and>
      list_all (\<lambda>(k, v). trimmed_value v) (messages (parse_modelfile fs filename))"
  proof (cases "fs filename")
    case None
    then show ?thesis by (simp add: parse_modelfile_def ModelFile_default_def)
  next
    case (Some f)
    from parse_loop_values [of ModelFile_default f] Some show ?thesis
      by (simp add: parse_modelfile_def ModelFile_default_def)
  qed
  with assms have "trimmed_value v"
    by (auto simp: list_all_iff)
  then show ?thesis
    by (auto simp: trimmed_value_def whitespace_def)
qed

theorem pair_values_trimmed_witness:
  "(''a'', ''1'') \<in> set (parameters (parse_modelfile
       [''Modelfile'' \<mapsto> ''PARAMETER a 1  '' @ [newline] @ ''PARAMETER key '' @ [newline]]
       ''Modelfile'')) \<union>
     set (messages (parse_modelfile
       [''Modelfile'' \<mapsto> ''PARAMETER a 1  '' @ [newline] @ ''PARAMETER key '' @ [newline]]
       ''Modelfile'')) \<and>
   ''1'' \<noteq> [] \<and> last ''1'' \<notin> {CHR '' '', CHR 0x09, CHR 0x0D, CHR 0x0A} \<and>
   parse_modelfile
     [''Modelfile'' \<mapsto> ''PARAMETER a 1  '' @ [newline] @ ''PARAMETER key '' @ [newline]]
     ''Modelfile'' = ModelFile_default\<lparr>parameters := [(''a'', ''1'')]\<rparr> \<and>
   parse_line ''PARAMETER key '' ModelFile_default [] =
     (ModelFile_default\<lparr>parameters := [(''key'', [])]\<rparr>, [])"
proof -
  let ?fs = "[''Modelfile'' \<mapsto> ''PARAMETER a 1  '' @ [newline] @ ''PARAMETER key '' @ [newline]]"
  have whole: "parse_modelfile ?fs ''Modelfile'' = ModelFile_default\<lparr>parameters := [(''a'', ''1'')]\<rparr>"
    by code_simp
  then have mem: "(''a'', ''1'') \<in> set (parameters (parse_modelfile ?fs ''Modelfile'')) \<union>
      set (messages (parse_modelfile ?fs ''Modelfile''))"
    by simp
  have direct: "parse_line ''PARAMETER key '' ModelFile_default [] =
      (ModelFile_default\<lparr>parameters := [(''key'', [])]\<rparr>, [])"
    by code_simp
  from pair_values_trimmed [OF mem] mem whole direct show ?thesis
    by simp
qed

subsection \<open>Physical lines and what the line source delivers\<close>

lemma concat_physical_lines: "concat (physical_lines f) = f"
  by (induction f) (auto split: list.splits)

lemma physical_lines_eq_Nil: "physical_lines f = [] \<longleftrightarrow> f = []"
  by (cases f) (auto split: list.splits)

lemma first_line_length_bounds: "f \<noteq> [] \<Longrightarrow> 0 < first_line_length f \<and> first_line_length f \<le> length f"
  by (cases "index_of newline f")
    (auto simp: first_line_length_def dest: index_of_Some)

lemma physical_lines_unfold:
  "f \<noteq> [] \<Longrightarrow>
   physical_lines f =
     take (first_line_length f) f # physical_lines (drop (first_line_length f) f)"
proof (induction f)
  case Nil
  then show ?case by simp
next
  case (Cons c cs)
  show ?case
  proof (cases "c = newline")
    case True
    then show ?thesis by (simp add: first_line_length_def)
  next
    case False
    have len: "first_line_length (c # cs) = Suc (first_line_length cs)"
      using False by (simp add: first_line_length_def split: option.splits)
    show ?thesis
    proof (cases "cs = []")
      case True
      with False show ?thesis by (simp add: first_line_length_def)
    next
      case nonempty: False
      from Cons.IH [OF this] False show ?thesis
        by (simp add: len)
    qed
  qed
qed

lemma fgets_fit:
  assumes "lines_fit f" and "fgets 1024 f = Some (buffer, f')"
  shows "physical_lines f = buffer # physical_lines f' \<and> lines_fit f'"
proof -
  from assms(2) have ne: "f \<noteq> []"
    by (auto simp: fgets_def)
  let ?k = "first_line_length f"
  note unf = physical_lines_unfold [OF ne]
  have "length (take ?k f) \<le> 1023"
    using assms(1) unf by (simp add: lines_fit_def)
  moreover have "?k \<le> length f"
    using first_line_length_bounds [OF ne] by simp
  ultimately have k: "?k \<le> 1023" by simp
  have "fgets 1024 f = Some (take ?k f, drop ?k f)"
    using ne k by (simp add: fgets_def first_line_length_def min_def Let_def)
  with assms(2) have "buffer = take ?k f" "f' = drop ?k f"
    by simp_all
  with unf assms(1) show ?thesis
    by (simp add: lines_fit_def)
qed

lemma file_lines_fit:
  "lines_fit f \<Longrightarrow> file_lines f = map c_string (physical_lines f)"
proof (induction f rule: file_lines.induct)
  case (1 f)
  show ?case
  proof (cases "fgets 1024 f")
    case None
    then have "f = []" by (auto simp: fgets_def Let_def split: if_splits)
    then show ?thesis by simp
  next
    case (Some p)
    obtain buffer f' where p: "p = (buffer, f')" by (cases p)
    from fgets_fit [OF "1.prems"] Some p
    have pl: "physical_lines f = buffer # physical_lines f'" and fit: "lines_fit f'"
      by simp_all
    from "1.IH" [OF Some p [symmetric] fit] pl Some p show ?thesis
      by (simp add: file_lines_step)
  qed
qed

lemma c_string_lines:
  assumes "nul \<notin> set f"
  shows "map c_string (physical_lines f) = physical_lines f"
proof -
  have "set l \<subseteq> set f" if "l \<in> set (physical_lines f)" for l
  proof -
    from that have "set l \<subseteq> set (concat (physical_lines f))" by auto
    then show ?thesis by (simp add: concat_physical_lines)
  qed
  with assms have "c_string l = l" if "l \<in> set (physical_lines f)" for l
    using that by (intro c_string_id) blast
  then show ?thesis by (simp add: map_idI)
qed

lemma read_multiline_loop_rest:
  "lines_fit f \<Longrightarrow> read_multiline_loop result f = (r, f') \<Longrightarrow>
   physical_lines f' = drop (length (pull_until_marker (file_lines f))) (physical_lines f) \<and>
   lines_fit f'"
proof (induction result f arbitrary: r f' rule: read_multiline_loop.induct)
  case (1 result f)
  show ?case
  proof (cases "fgets 1024 f")
    case None
    then have "f = []" by (auto simp: fgets_def Let_def split: if_splits)
    with "1.prems" show ?thesis
      by (simp add: read_multiline_loop.simps [of result "[]"])
  next
    case (Some p)
    obtain buffer g where p: "p = (buffer, g)" by (cases p)
    from fgets_fit [OF "1.prems"(1)] Some p
    have pl: "physical_lines f = buffer # physical_lines g" and fit: "lines_fit g"
      by simp_all
    have fl: "file_lines f = c_string buffer # file_lines g"
      using Some p by (simp add: file_lines_step)
    show ?thesis
    proof (cases "find_str (c_string buffer) triple_quote \<noteq> None")
      case True
      with "1.prems" Some p fl pl fit show ?thesis
        by (simp add: read_multiline_loop.simps [of result f] Let_def)
    next
      case False
      have "read_multiline_loop (result @ c_string buffer) g = (r, f')"
        using "1.prems" Some p False
        by (simp add: read_multiline_loop.simps [of result f] Let_def)
      from "1.IH" [OF Some p [symmetric] refl refl _ fit this] False
      have "physical_lines f' = drop (length (pull_until_marker (file_lines g))) (physical_lines g) \<and>
            lines_fit f'"
        by simp
      with fl pl False show ?thesis by simp
    qed
  qed
qed


subsection \<open>Lines longer than the buffer\<close>

lemma index_of_append:
  "c \<notin> set k \<Longrightarrow> index_of c (k @ r) = map_option (\<lambda>i. length k + i) (index_of c r)"
proof (induction k)
  case Nil
  show ?case by (cases "index_of c r") simp_all
next
  case (Cons x k)
  then show ?case by (cases "index_of c r") auto
qed

lemma fgets_full_buffer:
  assumes "length k = 1023" and "newline \<notin> set k"
  shows "fgets 1024 (k @ r) = Some (k, r)"
proof -
  have ne: "k @ r \<noteq> []"
    using assms(1) by auto
  have "(case index_of newline (k @ r) of None \<Rightarrow> length (k @ r) | Some i \<Rightarrow> i + 1) \<ge> 1023"
    using assms by (simp add: index_of_append split: option.splits)
  then show ?thesis
    using ne assms(1) by (simp add: fgets_def Let_def min_def)
qed

lemma find_str_replicate:
  assumes "pat \<noteq> []" and "hd pat \<noteq> a"
  shows "find_str (replicate n a @ r) pat = map_option (\<lambda>i. n + i) (find_str r pat)"
proof (induction n)
  case 0
  show ?case by (simp add: option.map_ident)
next
  case (Suc n)
  have "\<not> starts_with (a # replicate n a @ r) pat"
    using assms by (cases pat) (auto simp: starts_with_def)
  with Suc show ?case
    by (simp add: option.map_comp comp_def)
qed

lemma read_multiline_loop_eof: "read_multiline_loop result [] = (result, [])"
  by (simp add: read_multiline_loop.simps [of result "[]"])






subsection \<open>The main loop on physical lines\<close>

lemma rtrim_erase_trailing: "erase_trailing l = rtrim l"
  by (simp add: erase_trailing_eq rtrim_def)

lemma fgets_parts: "fgets n f = Some (buffer, f') \<Longrightarrow> f = buffer @ f'"
  by (auto simp: fgets_def Let_def split: if_splits)

lemma set_physical_lines: "\<Union> (set ` set (physical_lines f)) = set f"
  using concat_physical_lines [of f] by (metis set_concat)

lemma nul_free_rest:
  assumes "nul \<notin> set f" and "physical_lines f' = drop n (physical_lines f)"
  shows "nul \<notin> set f'"
proof -
  have "set f' = \<Union> (set ` set (physical_lines f'))"
    by (simp add: set_physical_lines)
  also have "\<dots> \<subseteq> \<Union> (set ` set (physical_lines f))"
    unfolding assms(2) using set_drop_subset [of n "physical_lines f"] by blast
  also have "\<dots> = set f"
    by (rule set_physical_lines)
  finally show ?thesis using assms(1) by blast
qed

lemma read_multiline_rest:
  assumes "lines_fit f"
  shows "physical_lines (snd (read_multiline f)) =
           drop (length (pull_until_marker (file_lines f))) (physical_lines f) \<and>
         lines_fit (snd (read_multiline f))"
proof -
  obtain res g where loop: "read_multiline_loop [] f = (res, g)"
    by (cases "read_multiline_loop [] f")
  then have "snd (read_multiline f) = g"
    by (simp add: read_multiline_def)
  with read_multiline_loop_rest [OF assms loop] show ?thesis by simp
qed

lemma parse_line_rest:
  assumes "lines_fit f"
  shows "physical_lines (snd (parse_line t model f)) =
           (if opens_continuation t
            then drop (length (pull_until_marker (file_lines f))) (physical_lines f)
            else physical_lines f) \<and>
         lines_fit (snd (parse_line t model f))"
proof (cases "opens_continuation t")
  case False
  then have "snd (parse_line t model f) = f"
    by (auto simp: parse_line_def opens_continuation_def substr_def Let_def
        split: option.splits prod.splits)
  with False assms show ?thesis by simp
next
  case True
  have "snd (parse_line t model f) = snd (read_multiline f)"
  proof (cases "starts_with t ''SYSTEM '' \<and> find_str (drop 7 t) triple_quote \<noteq> None")
    case sys: True
    then obtain v where t: "t = ''SYSTEM '' @ v"
      by (auto simp: starts_with_iff)
    with sys have "find_str v triple_quote \<noteq> None" by simp
    then show ?thesis
      unfolding t parse_line_SYSTEM by simp
  next
    case False
    with True have lic: "starts_with t ''LICENSE ''" "find_str (drop 8 t) triple_quote \<noteq> None"
      by (auto simp: opens_continuation_def)
    then obtain v where t: "t = ''LICENSE '' @ v"
      by (auto simp: starts_with_iff)
    with lic have "find_str v triple_quote \<noteq> None" by simp
    then show ?thesis
      unfolding t parse_line_LICENSE by simp
  qed
  with True read_multiline_rest [OF assms] show ?thesis by simp
qed

lemma key_value_pair_split:
  assumes "CHR '' '' \<notin> set k"
  shows "key_value_pair kw (kw @ k @ CHR '' '' # v) = [(k, v)]"
proof -
  have "takeWhile (\<lambda>c. c \<noteq> CHR '' '') (k @ CHR '' '' # v) = k"
    and "dropWhile (\<lambda>c. c \<noteq> CHR '' '') (k @ CHR '' '' # v) = CHR '' '' # v"
    using assms by (induction k) auto
  then show ?thesis
    by (simp add: key_value_pair_def Let_def)
qed

lemma key_value_pair_nospace:
  "CHR '' '' \<notin> set k \<Longrightarrow> key_value_pair kw (kw @ k) = []"
  by (simp add: key_value_pair_def)

lemma parse_line_other_keyword:
  "\<not> starts_with line ''FROM '' \<Longrightarrow> from (fst (parse_line line model f)) = from model"
  "\<not> starts_with line ''PARAMETER '' \<Longrightarrow>
     parameters (fst (parse_line line model f)) = parameters model"
  "\<not> starts_with line ''TEMPLATE '' \<Longrightarrow>
     template_str (fst (parse_line line model f)) = template_str model"
  "\<not> starts_with line ''SYSTEM '' \<Longrightarrow> system (fst (parse_line line model f)) = system model"
  "\<not> starts_with line ''ADAPTER '' \<Longrightarrow> adapter (fst (parse_line line model f)) = adapter model"
  "\<not> starts_with line ''LICENSE '' \<Longrightarrow> license (fst (parse_line line model f)) = license model"
  "\<not> starts_with line ''MESSAGE '' \<Longrightarrow> messages (fst (parse_line line model f)) = messages model"
  by (simp_all add: parse_line_def Let_def split: option.splits prod.splits)

lemma parse_line_parameters:
  "parameters (fst (parse_line t model f)) = parameters model @ key_value_pair ''PARAMETER '' t"
proof (cases "starts_with t ''PARAMETER ''")
  case False
  then show ?thesis
    by (simp add: parse_line_other_keyword(2) key_value_pair_def)
next
  case True
  from keyword_line_cases [OF this] show ?thesis
  proof (elim disjE exE conjE)
    fix k assume "CHR '' '' \<notin> set k" "t = ''PARAMETER '' @ k"
    then show ?thesis
      using parse_line_PARAMETER_nospace [of k model f] key_value_pair_nospace [of k "''PARAMETER ''"]
      by simp
  next
    fix k v assume "CHR '' '' \<notin> set k" "t = ''PARAMETER '' @ k @ '' '' @ v"
    then show ?thesis
      using parse_line_PARAMETER_pair [of k v model f]
        key_value_pair_split [of k "''PARAMETER ''" v]
      by simp
  qed
qed

lemma parse_line_messages:
  "messages (fst (parse_line t model f)) = messages model @ key_value_pair ''MESSAGE '' t"
proof (cases "starts_with t ''MESSAGE ''")
  case False
  then show ?thesis
    by (simp add: parse_line_other_keyword(7) key_value_pair_def)
next
  case True
  from keyword_line_cases [OF this] show ?thesis
  proof (elim disjE exE conjE)
    fix k assume "CHR '' '' \<notin> set k" "t = ''MESSAGE '' @ k"
    then show ?thesis
      using parse_line_MESSAGE_nospace [of k model f] key_value_pair_nospace [of k "''MESSAGE ''"]
      by simp
  next
    fix k v assume "CHR '' '' \<notin> set k" "t = ''MESSAGE '' @ k @ '' '' @ v"
    then show ?thesis
      using parse_line_MESSAGE_pair [of k v model f]
        key_value_pair_split [of k "''MESSAGE ''" v]
      by simp
  qed
qed

lemma parse_loop_logical:
  "lines_fit f \<Longrightarrow> nul \<notin> set f \<Longrightarrow>
   parameters (parse_loop model f) =
     parameters model @
     concat (map (key_value_pair ''PARAMETER '') (logical_lines (physical_lines f))) \<and>
   messages (parse_loop model f) =
     messages model @
     concat (map (key_value_pair ''MESSAGE '') (logical_lines (physical_lines f)))"
proof (induction model f rule: parse_loop.induct)
  case (1 model f)
  show ?case
  proof (cases "fgets 1024 f")
    case None
    then have "f = []" by (auto simp: fgets_def Let_def split: if_splits)
    then show ?thesis by simp
  next
    case (Some p)
    obtain buffer f' where p: "p = (buffer, f')" by (cases p)
    from fgets_fit [OF "1.prems"(1)] Some p
    have pl: "physical_lines f = buffer # physical_lines f'" and fit: "lines_fit f'"
      by simp_all
    have parts: "f = buffer @ f'"
      using Some p by (auto dest: fgets_parts)
    with "1.prems"(2) have nf: "nul \<notin> set buffer" "nul \<notin> set f'"
      by simp_all
    define line where "line = erase_trailing (c_string buffer)"
    have line: "line = rtrim buffer"
      using nf(1) by (simp add: line_def c_string_id rtrim_erase_trailing)
    show ?thesis
    proof (cases "line = [] \<or> hd line = CHR ''#''")
      case True
      have "parse_loop model f = parse_loop model f'"
        using True Some p by (simp add: parse_loop.simps [of model f] line_def)
      moreover have "logical_lines (physical_lines f) = logical_lines (physical_lines f')"
        using True line pl by (simp add: logical_lines.simps(2))
      ultimately show ?thesis
        using "1.IH"(1) [OF Some p [symmetric] line_def True fit nf(2)] by simp
    next
      case False
      obtain model' f'' where pline: "parse_line line model f' = (model', f'')"
        by (cases "parse_line line model f'")
      have lines: "file_lines f' = physical_lines f'"
        using fit nf(2) by (simp add: file_lines_fit c_string_lines)
      from parse_line_rest [OF fit, of line model] pline lines
      have rest: "physical_lines f'' =
          (if opens_continuation line
           then drop (length (pull_until_marker (physical_lines f'))) (physical_lines f')
           else physical_lines f')"
        and fit'': "lines_fit f''"
        by simp_all
      have nf'': "nul \<notin> set f''"
      proof (cases "opens_continuation line")
        case True
        with rest show ?thesis using nul_free_rest [OF nf(2)] by simp
      next
        case False
        with rest have "physical_lines f'' = drop 0 (physical_lines f')" by simp
        then show ?thesis by (rule nul_free_rest [OF nf(2)])
      qed
      have step: "parameters model' = parameters model @ key_value_pair ''PARAMETER '' line"
        "messages model' = messages model @ key_value_pair ''MESSAGE '' line"
        using parse_line_parameters [of line model f'] parse_line_messages [of line model f'] pline
        by simp_all
      have "parse_loop model f = parse_loop model' f''"
        using False Some p pline by (simp add: parse_loop.simps [of model f] line_def)
      moreover have "logical_lines (physical_lines f) = line # logical_lines (physical_lines f'')"
        using False line pl rest by (simp add: logical_lines.simps(2) Let_def)
      ultimately show ?thesis
        using "1.IH"(2) [OF Some p [symmetric] line_def False pline [symmetric] fit'' nf''] step
        by simp
    qed
  qed
qed

lemma logical_lines_no_continuation:
  "list_all (\<lambda>l. \<not> opens_continuation (rtrim l)) ls \<Longrightarrow>
   logical_lines ls = filter (\<lambda>t. t \<noteq> [] \<and> hd t \<noteq> CHR ''#'') (map rtrim ls)"
  by (induction ls) (auto simp: logical_lines.simps(2) Let_def)

lemma key_value_pair_skipped:
  "t = [] \<or> hd t = CHR ''#'' \<Longrightarrow>
   key_value_pair ''PARAMETER '' t = [] \<and> key_value_pair ''MESSAGE '' t = []"
  by (cases t) (auto simp: key_value_pair_def starts_with_def)

lemma concat_map_filter_skipped:
  assumes "\<And>t. \<not> P t \<Longrightarrow> g t = []"
  shows "concat (map g (filter P ts)) = concat (map g ts)"
  using assms by (induction ts) auto


lemma physical_lines_append_line:
  "newline \<notin> set l \<Longrightarrow> physical_lines (l @ newline # r) = (l @ [newline]) # physical_lines r"
  by (induction l) auto

lemma split_marker_swallows:
  assumes "list_all (\<lambda>l. find_str l triple_quote = None) (file_lines r)"
  shows "snd (read_multiline ((replicate 1021 CHR ''a'' @ triple_quote) @ newline # r)) = []"
proof -
  let ?q = "CHR 0x22"
  let ?k = "replicate 1021 CHR ''a'' @ [?q, ?q]"
  have f: "(replicate 1021 CHR ''a'' @ triple_quote) @ newline # r = ?k @ ([?q] @ newline # r)"
    by (simp add: triple_quote_def)
  have fg: "fgets 1024 (?k @ ([?q] @ newline # r)) = Some (?k, [?q] @ newline # r)"
    by (rule fgets_full_buffer) (simp_all add: newline_def)
  have cs: "c_string ?k = ?k"
    by (rule c_string_id) (simp add: nul_def)
  have l1: "file_lines (?k @ ([?q] @ newline # r)) = ?k # file_lines ([?q] @ newline # r)"
    using file_lines_step [OF fg] by (simp only: cs)
  have "file_lines ([?q] @ newline # r) = ([?q] @ [newline]) # file_lines r"
    by (rule file_lines_physical) (simp_all add: newline_def nul_def)
  with l1 have lines: "file_lines (?k @ ([?q] @ newline # r)) = ?k # [?q, newline] # file_lines r"
    by simp
  have m1: "find_str ?k triple_quote = None"
    using find_str_replicate [of triple_quote "CHR ''a''" 1021 "[?q, ?q]"]
    by (simp add: triple_quote_def starts_with_def)
  have m2: "find_str [?q, newline] triple_quote = None"
    by code_simp
  have "list_all (\<lambda>l. find_str l triple_quote = None) (?k # [?q, newline] # file_lines r)"
    using m1 m2 assms by (simp only: list.pred_inject simp_thms)
  then have "list_all (\<lambda>l. find_str l triple_quote = None) (file_lines (?k @ ([?q] @ newline # r)))"
    by (simp only: lines)
  from read_multiline_unterminated [OF this] show ?thesis
    by (simp only: f snd_conv)
qed

text \<open>
  Claim C4, as stated, fails on the code. A SYSTEM value that opens and closes its triple
  quote on one line still starts a continuation, which finds no further marker and takes
  both PARAMETER lines as its body: \<open>parameters\<close> stays empty. A NUL byte in a PARAMETER
  line cuts the line before its separating space, and a closing line whose marker lies
  across byte 1023 is not recognised, so the PARAMETER lines behind it are swallowed,
  although by the specification's reading of the physical lines they are directives.
\<close>

theorem repeated_directives_counterexample:
  "physical_lines (''SYSTEM '' @ triple_quote @ ''done'' @ triple_quote @ [newline] @
       ''PARAMETER stop a'' @ [newline] @ ''PARAMETER stop a'' @ [newline]) =
     [''SYSTEM '' @ triple_quote @ ''done'' @ triple_quote @ [newline],
      ''PARAMETER stop a'' @ [newline], ''PARAMETER stop a'' @ [newline]] \<and>
   key_value_pair ''PARAMETER '' (rtrim (''PARAMETER stop a'' @ [newline])) = [(''stop'', ''a'')] \<and>
   parameters (parse_modelfile
     [''Modelfile'' \<mapsto> ''SYSTEM '' @ triple_quote @ ''done'' @ triple_quote @ [newline] @
        ''PARAMETER stop a'' @ [newline] @ ''PARAMETER stop a'' @ [newline]] ''Modelfile'') = [] \<and>
   key_value_pair ''PARAMETER '' (rtrim (''PARAMETER k'' @ [nul] @ '' v'' @ [newline])) =
     [(''k'' @ [nul], ''v'')] \<and>
   parameters (parse_modelfile
     [''Modelfile'' \<mapsto> ''PARAMETER k'' @ [nul] @ '' v'' @ [newline] @
        ''PARAMETER k'' @ [nul] @ '' v'' @ [newline]] ''Modelfile'') = [] \<and>
   concat (map (key_value_pair ''PARAMETER '')
     (logical_lines (physical_lines
        ((''SYSTEM '' @ triple_quote @ ''a'') @ newline #
         (replicate 1021 CHR ''a'' @ triple_quote) @ newline #
         ''PARAMETER k v'' @ [newline] @ ''PARAMETER k v'' @ [newline])))) =
     [(''k'', ''v''), (''k'', ''v'')] \<and>
   parameters (parse_modelfile
     [''Modelfile'' \<mapsto> (''SYSTEM '' @ triple_quote @ ''a'') @ newline #
         (replicate 1021 CHR ''a'' @ triple_quote) @ newline #
         ''PARAMETER k v'' @ [newline] @ ''PARAMETER k v'' @ [newline]] ''Modelfile'') = []"
proof -
  let ?l0 = "''SYSTEM '' @ triple_quote @ ''a''"
  let ?lc = "replicate 1021 CHR ''a'' @ triple_quote"
  let ?r = "''PARAMETER k v'' @ [newline] @ ''PARAMETER k v'' @ [newline]"
  have small: "physical_lines (''SYSTEM '' @ triple_quote @ ''done'' @ triple_quote @ [newline] @
       ''PARAMETER stop a'' @ [newline] @ ''PARAMETER stop a'' @ [newline]) =
     [''SYSTEM '' @ triple_quote @ ''done'' @ triple_quote @ [newline],
      ''PARAMETER stop a'' @ [newline], ''PARAMETER stop a'' @ [newline]]"
    "key_value_pair ''PARAMETER '' (rtrim (''PARAMETER stop a'' @ [newline])) = [(''stop'', ''a'')]"
    "parameters (parse_modelfile
     [''Modelfile'' \<mapsto> ''SYSTEM '' @ triple_quote @ ''done'' @ triple_quote @ [newline] @
        ''PARAMETER stop a'' @ [newline] @ ''PARAMETER stop a'' @ [newline]] ''Modelfile'') = []"
    "key_value_pair ''PARAMETER '' (rtrim (''PARAMETER k'' @ [nul] @ '' v'' @ [newline])) =
     [(''k'' @ [nul], ''v'')]"
    "parameters (parse_modelfile
     [''Modelfile'' \<mapsto> ''PARAMETER k'' @ [nul] @ '' v'' @ [newline] @
        ''PARAMETER k'' @ [nul] @ '' v'' @ [newline]] ''Modelfile'') = []"
    by code_simp+
  \<comment> \<open>the specification's reading of the long input\<close>
  have n0: "newline \<notin> set ?l0" and nc: "newline \<notin> set ?lc"
    by (simp_all add: triple_quote_def newline_def)
  have pl: "physical_lines (?l0 @ newline # ?lc @ newline # ?r) =
      (?l0 @ [newline]) # (?lc @ [newline]) # physical_lines ?r"
    by (simp only: physical_lines_append_line [OF n0] physical_lines_append_line [OF nc])
  have t0: "rtrim (?l0 @ [newline]) = ?l0" "?l0 \<noteq> []" "hd ?l0 \<noteq> CHR ''#''"
    "opens_continuation ?l0"
    by code_simp+
  have "find_str (?lc @ [newline]) triple_quote \<noteq> None"
    unfolding find_str_iff by (metis append_assoc)
  then have "pull_until_marker ((?lc @ [newline]) # physical_lines ?r) = [?lc @ [newline]]"
    by simp
  then have "logical_lines ((?l0 @ [newline]) # (?lc @ [newline]) # physical_lines ?r) =
      ?l0 # logical_lines (physical_lines ?r)"
    using t0 by (simp only: logical_lines.simps(2) Let_def) simp
  moreover have "concat (map (key_value_pair ''PARAMETER '') (?l0 # logical_lines (physical_lines ?r))) =
      [(''k'', ''v''), (''k'', ''v'')]"
    by code_simp
  ultimately have spec: "concat (map (key_value_pair ''PARAMETER '')
      (logical_lines (physical_lines (?l0 @ newline # ?lc @ newline # ?r)))) =
      [(''k'', ''v''), (''k'', ''v'')]"
    by (simp only: pl)
  \<comment> \<open>what the code does with it\<close>
  have "list_all (\<lambda>l. find_str l triple_quote = None) (file_lines ?r)"
    by code_simp
  then have swallowed: "snd (read_multiline (?lc @ newline # ?r)) = []"
    by (rule split_marker_swallows)
  have "find_str (triple_quote @ ''a'') triple_quote \<noteq> None"
    by code_simp
  then have pos: "snd (parse_line ?l0 ModelFile_default (?lc @ newline # ?r)) = []"
    unfolding parse_line_SYSTEM using swallowed by simp
  have "\<not> starts_with ?l0 ''PARAMETER ''"
    by code_simp
  then have keep: "parameters (fst (parse_line ?l0 ModelFile_default (?lc @ newline # ?r))) = []"
    by (simp add: parse_line_other_keyword(2) ModelFile_default_def)
  have "plain_line ?l0"
    by code_simp
  from parse_loop_plain_line [OF this, of ModelFile_default "?lc @ newline # ?r"] pos
  have "parse_loop ModelFile_default (?l0 @ newline # ?lc @ newline # ?r) =
      fst (parse_line ?l0 ModelFile_default (?lc @ newline # ?r))"
    by simp
  with keep have code: "parameters (parse_modelfile
      [''Modelfile'' \<mapsto> ?l0 @ newline # ?lc @ newline # ?r] ''Modelfile'') = []"
    by (simp add: parse_modelfile_def)
  from small spec code show ?thesis by blast
qed

text \<open>
  Claim C4, amended to the inputs whose physical lines each fit the buffer (at most 1023
  bytes, newline included) and hold no NUL byte, and to the PARAMETER and MESSAGE lines
  outside a continuation body. The parameters of the parsed document are the pairs of the
  directive lines of the input (\<open>logical_lines\<close>), one after the other in file order,
  and likewise the messages: nothing is looked up, merged or overwritten, so a key on two
  PARAMETER lines occurs twice. Where no line opens a continuation, these are the pairs
  of all lines of the input. A line with a space-free key \<open>k\<close> and a value \<open>v\<close> behind the
  keyword contributes exactly \<open>(k, v)\<close>.
\<close>

theorem repeated_directives_kept:
  assumes "lines_fit f" and "nul \<notin> set f"
  shows "parameters (parse_modelfile (fs(filename \<mapsto> f)) filename) =
           concat (map (key_value_pair ''PARAMETER '') (logical_lines (physical_lines f))) \<and>
         messages (parse_modelfile (fs(filename \<mapsto> f)) filename) =
           concat (map (key_value_pair ''MESSAGE '') (logical_lines (physical_lines f))) \<and>
         (list_all (\<lambda>l. \<not> opens_continuation (rtrim l)) (physical_lines f) \<longrightarrow>
            parameters (parse_modelfile (fs(filename \<mapsto> f)) filename) =
              concat (map (\<lambda>l. key_value_pair ''PARAMETER '' (rtrim l)) (physical_lines f)) \<and>
            messages (parse_modelfile (fs(filename \<mapsto> f)) filename) =
              concat (map (\<lambda>l. key_value_pair ''MESSAGE '' (rtrim l)) (physical_lines f))) \<and>
         (CHR '' '' \<notin> set k \<longrightarrow> key_value_pair kw (kw @ k @ '' '' @ v) = [(k, v)])"
proof -
  let ?ls = "physical_lines f"
  let ?keep = "\<lambda>t. t \<noteq> [] \<and> hd t \<noteq> CHR ''#''"
  from parse_loop_logical [OF assms, of ModelFile_default]
  have general: "parameters (parse_modelfile (fs(filename \<mapsto> f)) filename) =
      concat (map (key_value_pair ''PARAMETER '') (logical_lines ?ls))"
    "messages (parse_modelfile (fs(filename \<mapsto> f)) filename) =
      concat (map (key_value_pair ''MESSAGE '') (logical_lines ?ls))"
    by (simp_all add: parse_modelfile_def ModelFile_default_def)
  have all_lines: "concat (map (key_value_pair ''PARAMETER '') (logical_lines ?ls)) =
        concat (map (\<lambda>l. key_value_pair ''PARAMETER '' (rtrim l)) ?ls) \<and>
      concat (map (key_value_pair ''MESSAGE '') (logical_lines ?ls)) =
        concat (map (\<lambda>l. key_value_pair ''MESSAGE '' (rtrim l)) ?ls)"
    if "list_all (\<lambda>l. \<not> opens_continuation (rtrim l)) ?ls"
  proof -
    have ll: "logical_lines ?ls = filter ?keep (map rtrim ?ls)"
      using that by (rule logical_lines_no_continuation)
    have "concat (map (key_value_pair ''PARAMETER '') (filter ?keep (map rtrim ?ls))) =
        concat (map (key_value_pair ''PARAMETER '') (map rtrim ?ls))"
      by (rule concat_map_filter_skipped) (use key_value_pair_skipped in blast)
    moreover have "concat (map (key_value_pair ''MESSAGE '') (filter ?keep (map rtrim ?ls))) =
        concat (map (key_value_pair ''MESSAGE '') (map rtrim ?ls))"
      by (rule concat_map_filter_skipped) (use key_value_pair_skipped in blast)
    ultimately show ?thesis
      by (simp add: ll comp_def)
  qed
  have "key_value_pair kw (kw @ k @ '' '' @ v) = [(k, v)]" if "CHR '' '' \<notin> set k"
    using key_value_pair_split [OF that, of kw v] by simp
  with general all_lines show ?thesis by simp
qed

theorem repeated_directives_kept_witness:
  "lines_fit (''PARAMETER stop a'' @ [newline] @ ''# note'' @ [newline] @
      ''MESSAGE user hi'' @ [newline] @ ''PARAMETER stop b'' @ [newline] @
      ''PARAMETER stop a'' @ [newline] @ ''MESSAGE user hi'' @ [newline]) \<and>
   nul \<notin> set (''PARAMETER stop a'' @ [newline] @ ''# note'' @ [newline] @
      ''MESSAGE user hi'' @ [newline] @ ''PARAMETER stop b'' @ [newline] @
      ''PARAMETER stop a'' @ [newline] @ ''MESSAGE user hi'' @ [newline]) \<and>
   list_all (\<lambda>l. \<not> opens_continuation (rtrim l))
     (physical_lines (''PARAMETER stop a'' @ [newline] @ ''# note'' @ [newline] @
      ''MESSAGE user hi'' @ [newline] @ ''PARAMETER stop b'' @ [newline] @
      ''PARAMETER stop a'' @ [newline] @ ''MESSAGE user hi'' @ [newline])) \<and>
   CHR '' '' \<notin> set ''stop'' \<and>
   key_value_pair ''PARAMETER '' (''PARAMETER '' @ ''stop'' @ '' '' @ ''a'') = [(''stop'', ''a'')] \<and>
   parameters (parse_modelfile
     [''Modelfile'' \<mapsto> ''PARAMETER stop a'' @ [newline] @ ''# note'' @ [newline] @
      ''MESSAGE user hi'' @ [newline] @ ''PARAMETER stop b'' @ [newline] @
      ''PARAMETER stop a'' @ [newline] @ ''MESSAGE user hi'' @ [newline]] ''Modelfile'') =
     [(''stop'', ''a''), (''stop'', ''b''), (''stop'', ''a'')] \<and>
   messages (parse_modelfile
     [''Modelfile'' \<mapsto> ''PARAMETER stop a'' @ [newline] @ ''# note'' @ [newline] @
      ''MESSAGE user hi'' @ [newline] @ ''PARAMETER stop b'' @ [newline] @
      ''PARAMETER stop a'' @ [newline] @ ''MESSAGE user hi'' @ [newline]] ''Modelfile'') =
     [(''user'', ''hi''), (''user'', ''hi'')] \<and>
   lines_fit (''SYSTEM '' @ triple_quote @ ''x'' @ [newline] @ ''PARAMETER in body'' @ [newline] @
      triple_quote @ [newline] @ ''PARAMETER stop a'' @ [newline] @ ''PARAMETER stop a'' @ [newline]) \<and>
   nul \<notin> set (''SYSTEM '' @ triple_quote @ ''x'' @ [newline] @ ''PARAMETER in body'' @ [newline] @
      triple_quote @ [newline] @ ''PARAMETER stop a'' @ [newline] @ ''PARAMETER stop a'' @ [newline]) \<and>
   parameters (parse_modelfile
     [''Modelfile'' \<mapsto> ''SYSTEM '' @ triple_quote @ ''x'' @ [newline] @
      ''PARAMETER in body'' @ [newline] @ triple_quote @ [newline] @
      ''PARAMETER stop a'' @ [newline] @ ''PARAMETER stop a'' @ [newline]] ''Modelfile'') =
     [(''stop'', ''a''), (''stop'', ''a'')]"
proof -
  let ?g = "''SYSTEM '' @ triple_quote @ ''x'' @ [newline] @ ''PARAMETER in body'' @ [newline] @
      triple_quote @ [newline] @ ''PARAMETER stop a'' @ [newline] @ ''PARAMETER stop a'' @ [newline]"
  have g1: "lines_fit ?g" and g2: "nul \<notin> set ?g"
    by code_simp+
  have gs: "concat (map (key_value_pair ''PARAMETER '') (logical_lines (physical_lines ?g))) =
      [(''stop'', ''a''), (''stop'', ''a'')]"
    by code_simp
  have block: "parameters (parse_modelfile [''Modelfile'' \<mapsto> ?g] ''Modelfile'') =
      [(''stop'', ''a''), (''stop'', ''a'')]"
    using repeated_directives_kept [OF g1 g2, of Map.empty "''Modelfile''" "[]" "[]" "[]"]
    unfolding gs by blast
  let ?f = "''PARAMETER stop a'' @ [newline] @ ''# note'' @ [newline] @
      ''MESSAGE user hi'' @ [newline] @ ''PARAMETER stop b'' @ [newline] @
      ''PARAMETER stop a'' @ [newline] @ ''MESSAGE user hi'' @ [newline]"
  have h1: "lines_fit ?f" and h2: "nul \<notin> set ?f"
    and h3: "list_all (\<lambda>l. \<not> opens_continuation (rtrim l)) (physical_lines ?f)"
    and h4: "CHR '' '' \<notin> set ''stop''"
    by code_simp+
  have ps: "concat (map (\<lambda>l. key_value_pair ''PARAMETER '' (rtrim l)) (physical_lines ?f)) =
      [(''stop'', ''a''), (''stop'', ''b''), (''stop'', ''a'')]"
    and ms: "concat (map (\<lambda>l. key_value_pair ''MESSAGE '' (rtrim l)) (physical_lines ?f)) =
      [(''user'', ''hi''), (''user'', ''hi'')]"
    by code_simp+
  note kept = repeated_directives_kept [OF h1 h2, of Map.empty "''Modelfile''" "''stop''"
      "''PARAMETER ''" "''a''"]
  have "parameters (parse_modelfile [''Modelfile'' \<mapsto> ?f] ''Modelfile'') =
      concat (map (\<lambda>l. key_value_pair ''PARAMETER '' (rtrim l)) (physical_lines ?f))"
    "messages (parse_modelfile [''Modelfile'' \<mapsto> ?f] ''Modelfile'') =
      concat (map (\<lambda>l. key_value_pair ''MESSAGE '' (rtrim l)) (physical_lines ?f))"
    "key_value_pair ''PARAMETER '' (''PARAMETER '' @ ''stop'' @ '' '' @ ''a'') = [(''stop'', ''a'')]"
    using kept h3 h4 by blast+
  with h1 h2 h3 h4 g1 g2 block show ?thesis
    unfolding ps ms by blast
qed

subsection \<open>Defaults, comments and blank lines\<close>













end
